theory Spec2Isabelle
  imports Main "HOL-Library.Word"
begin

text \<open>
  A model of \<open>storage.go\<close>: an in-memory key-value store whose mutations are appended to
  a transaction log and replayed from it at startup. The definitions follow the Go source
  function by function; the library calls it makes (\<open>fmt.Fprintf\<close>, \<open>fmt.Sscanf\<close>,
  \<open>bufio.Scanner\<close>, channels) are modelled as far as the program uses them. The
  properties come after the definitions.
\<close>

section \<open>The key-value store\<close>

text \<open>
  The program keeps one process-wide map \<open>store.data\<close> from keys to values, guarded by a
  read/write lock. Each store function holds the lock for the whole of its access to the
  map, so the functions are atomic and are modelled as functions on the map.
  Go's \<open>error\<close> results are \<open>error option\<close>, \<open>None\<close> for \<open>nil\<close>.
\<close>

datatype error =
    ErrorNoSuchKey
  | ErrCannotOpen
  | ErrInputParse
  | ErrOutOfSequence
  | ErrReadFailure
  | ErrWrite

type_synonym store = "string \<rightharpoonup> string"

definition Get :: "string \<Rightarrow> store \<Rightarrow> string \<times> error option" where
  "Get key data =
     (case data key of
        None \<Rightarrow> ('''', Some ErrorNoSuchKey)
      | Some v \<Rightarrow> (v, None))"

definition Put :: "string \<Rightarrow> string \<Rightarrow> store \<Rightarrow> store \<times> error option" where
  "Put key v data = (data(key \<mapsto> v), None)"

definition Delete :: "string \<Rightarrow> store \<Rightarrow> store \<times> error option" where
  "Delete key data = (data(key := None), None)"

text \<open>
  A caller's sequence of mutations, run from left to right; an error of a store function
  would stop the run (neither function has one).
\<close>

datatype mutation = DoPut string string | DoDelete string

fun mutate :: "mutation \<Rightarrow> store \<Rightarrow> store \<times> error option" where
  "mutate (DoPut k v) data = Put k v data"
| "mutate (DoDelete k) data = Delete k data"

fun mutate_all :: "mutation list \<Rightarrow> store \<Rightarrow> store \<times> error option" where
  "mutate_all [] data = (data, None)"
| "mutate_all (m # ms) data =
     (case mutate m data of
        (data', None) \<Rightarrow> mutate_all ms data'
      | (data', Some err) \<Rightarrow> (data', Some err))"

text \<open>
  The specification's reading of a history: the last mutation that names the key decides.
\<close>

fun mutation_key :: "mutation \<Rightarrow> string" where
  "mutation_key (DoPut k v) = k"
| "mutation_key (DoDelete k) = k"

definition last_mutation :: "string \<Rightarrow> mutation list \<Rightarrow> mutation option" where
  "last_mutation k ms =
     (case rev (filter (\<lambda>m. mutation_key m = k) ms) of
        [] \<Rightarrow> None
      | m # _ \<Rightarrow> Some m)"

definition expected_get :: "string \<Rightarrow> mutation list \<Rightarrow> string \<times> error option" where
  "expected_get k ms =
     (case last_mutation k ms of
        Some (DoPut _ v) \<Rightarrow> (v, None)
      | Some (DoDelete _) \<Rightarrow> ('''', Some ErrorNoSuchKey)
      | None \<Rightarrow> ('''', Some ErrorNoSuchKey))"

section \<open>Events and the durable record format\<close>

text \<open>
  \<open>EventType\<close> is a byte with \<open>EventDelete = 1\<close> and \<open>EventPut = 2\<close> (\<open>iota\<close> skips 0);
  \<open>Sequence\<close> is a \<open>uint64\<close>. The zero value \<open>Event{}\<close> has every field zero or empty.
\<close>

definition EventDelete :: "8 word" where
  "EventDelete = 1"

definition EventPut :: "8 word" where
  "EventPut = 2"

record Event =
  Sequence :: "64 word"
  EventType :: "8 word"
  Key :: string
  Value :: string

abbreviation TAB :: char where "TAB \<equiv> CHR 0x09"
abbreviation NL :: char where "NL \<equiv> CHR 0x0A"
abbreviation CR :: char where "CR \<equiv> CHR 0x0D"

text \<open>
  \<open>fmt.Fprintf(l.file, "%d\t%d\t%s\t%s\n", l.lastSequence, e.EventType, e.Key, e.Value)\<close>:
  \<open>%d\<close> prints an unsigned integer in decimal without padding, \<open>%s\<close> copies the bytes of
  the string.
\<close>

definition digit_char :: "nat \<Rightarrow> char" where
  "digit_char d = ''0123456789'' ! d"

fun decimal :: "nat \<Rightarrow> string" where
  "decimal n = (if n < 10 then [digit_char n] else decimal (n div 10) @ [digit_char (n mod 10)])"

declare decimal.simps [simp del]

definition format_event :: "64 word \<Rightarrow> Event \<Rightarrow> string" where
  "format_event seq e =
     decimal (unat seq) @ [TAB] @ decimal (unat (EventType e)) @ [TAB] @
     Key e @ [TAB] @ Value e @ [NL]"

section \<open>Scanning a line: \<open>fmt.Sscanf(line, "%d\t%d\t%s\t%s", ...)\<close>\<close>

text \<open>
  The text is a list of bytes. Go's scanner reads runes; on ASCII text a byte is a rune, and
  the model is Go's scanner on ASCII text. A byte from \<open>0x80\<close> on is treated as a rune
  that is neither a space nor a digit.

  \<open>isSpace\<close> is the ASCII part of the table in \<open>fmt\<close>: tab, newline, vertical tab, form
  feed, carriage return and space.
\<close>

definition isSpace :: "char \<Rightarrow> bool" where
  "isSpace c =
     (c = CHR 0x09 \<or> c = CHR 0x0A \<or> c = CHR 0x0B \<or> c = CHR 0x0C \<or> c = CHR 0x0D \<or> c = CHR 0x20)"

definition isDigit :: "char \<Rightarrow> bool" where
  "isDigit c = (48 \<le> (of_char c :: nat) \<and> (of_char c :: nat) \<le> 57)"

text \<open>
  \<open>SkipSpace\<close> in the mode of \<open>Sscanf\<close> (newlines are not spaces): it stops with an error at
  a newline, also at the newline of a \<open>\r\n\<close> pair. \<open>None\<close> is the scanner's error.
\<close>

fun SkipSpace :: "string \<Rightarrow> string option" where
  "SkipSpace [] = Some []"
| "SkipSpace (r # rs) =
     (if r = CR \<and> (case rs of [] \<Rightarrow> False | c # _ \<Rightarrow> c = NL) then SkipSpace rs
      else if r = NL then None
      else if \<not> isSpace r then Some (r # rs)
      else SkipSpace rs)"

text \<open>\<open>strconv.ParseUint(tok, 10, 64)\<close> on a token of decimal digits.\<close>

definition parse_decimal :: "string \<Rightarrow> nat" where
  "parse_decimal tok = foldl (\<lambda>acc c. 10 * acc + ((of_char c :: nat) - 48)) 0 tok"

text \<open>
  \<open>scanUint\<close> for the verb \<open>%d\<close>: spaces are skipped, the input must not be at its end, at
  least one decimal digit is required (no sign), the digits must fit 64 bits for
  \<open>ParseUint\<close> and then the width of the destination.
\<close>

definition scanUint :: "nat \<Rightarrow> string \<Rightarrow> (nat \<times> string) option" where
  "scanUint bitSize s =
     (case SkipSpace s of
        None \<Rightarrow> None
      | Some [] \<Rightarrow> None
      | Some (c # cs) \<Rightarrow>
          (let tok = takeWhile isDigit (c # cs);
               rest = dropWhile isDigit (c # cs)
           in if tok = [] then None
              else if 2 ^ 64 \<le> parse_decimal tok then None
              else if 2 ^ bitSize \<le> parse_decimal tok then None
              else Some (parse_decimal tok, rest)))"

text \<open>
  \<open>convertString\<close> for the verb \<open>%s\<close>: spaces are skipped, the input must not be at its
  end, and the token runs to the next space or the end of the input.
\<close>

definition convertString :: "string \<Rightarrow> (string \<times> string) option" where
  "convertString s =
     (case SkipSpace s of
        None \<Rightarrow> None
      | Some [] \<Rightarrow> None
      | Some (c # cs) \<Rightarrow>
          Some (takeWhile (\<lambda>r. \<not> isSpace r) (c # cs), dropWhile (\<lambda>r. \<not> isSpace r) (c # cs)))"

text \<open>
  \<open>advance\<close> over a tab of the format that stands alone: the input is at its end, or its
  next rune is a space other than a newline; the spaces that follow, up to a newline, are
  consumed too.
\<close>

definition advance :: "string \<Rightarrow> string option" where
  "advance s =
     (case s of
        [] \<Rightarrow> Some []
      | c # cs \<Rightarrow>
          if \<not> isSpace c then None
          else if c = NL then None
          else Some (dropWhile (\<lambda>r. isSpace r \<and> r \<noteq> NL) cs))"

text \<open>The four verbs in order; input after the fourth operand is ignored.\<close>

definition Sscanf :: "string \<Rightarrow> Event option" where
  "Sscanf line =
     (case scanUint 64 line of None \<Rightarrow> None | Some (seq, s1) \<Rightarrow>
      case advance s1 of None \<Rightarrow> None | Some s2 \<Rightarrow>
      case scanUint 8 s2 of None \<Rightarrow> None | Some (ty, s3) \<Rightarrow>
      case advance s3 of None \<Rightarrow> None | Some s4 \<Rightarrow>
      case convertString s4 of None \<Rightarrow> None | Some (k, s5) \<Rightarrow>
      case advance s5 of None \<Rightarrow> None | Some s6 \<Rightarrow>
      case convertString s6 of None \<Rightarrow> None | Some (v, s7) \<Rightarrow>
        Some \<lparr>Sequence = of_nat seq, EventType = of_nat ty, Key = k, Value = v\<rparr>)"

section \<open>The shape of a line\<close>

text \<open>
  Two readings of the fields of a line. \<open>tab_fields\<close> follows the record format of the
  specification: the fields are what single tab characters separate. \<open>tokens\<close> follows the
  scanner: the maximal runs of runes that are not spaces.
\<close>

fun split_tab :: "string \<Rightarrow> string \<Rightarrow> string list" where
  "split_tab cur [] = [cur]"
| "split_tab cur (c # cs) = (if c = TAB then cur # split_tab [] cs else split_tab (cur @ [c]) cs)"

definition tab_fields :: "string \<Rightarrow> string list" where
  "tab_fields line = split_tab [] line"

function tokens :: "string \<Rightarrow> string list" where
  "tokens s =
     (if dropWhile isSpace s = [] then []
      else takeWhile (\<lambda>r. \<not> isSpace r) (dropWhile isSpace s) #
           tokens (dropWhile (\<lambda>r. \<not> isSpace r) (dropWhile isSpace s)))"
  by pat_completeness auto

termination
proof (relation "measure length")
  show "wf (measure length)" by simp
next
  fix s :: string
  assume ne: "dropWhile isSpace s \<noteq> []"
  then obtain c cs where d: "dropWhile isSpace s = c # cs"
    by (cases "dropWhile isSpace s") auto
  then have "\<not> isSpace c"
    using hd_dropWhile [of isSpace s] by auto
  then have "dropWhile (\<lambda>r. \<not> isSpace r) (c # cs) = dropWhile (\<lambda>r. \<not> isSpace r) cs"
    by simp
  moreover have "length (dropWhile (\<lambda>r. \<not> isSpace r) cs) \<le> length cs"
    by (rule length_dropWhile_le)
  moreover have "length (c # cs) \<le> length s"
    using length_dropWhile_le [of isSpace s] d by simp
  ultimately
  show "(dropWhile (\<lambda>r. \<not> isSpace r) (dropWhile isSpace s), s) \<in> measure length"
    using d by simp
qed

declare tokens.simps [simp del]

section \<open>Reading lines: \<open>bufio.Scanner\<close>\<close>

text \<open>
  \<open>bufio.NewScanner\<close> splits with \<open>ScanLines\<close>: a line ends at a newline or at the end of
  the input, one trailing carriage return is dropped, and an empty rest at the end of the
  input is no line. The scanner's buffer holds 64 KiB: a line with 65536 bytes or more
  before its newline stops the scan with \<open>ErrTooLong\<close>. The result is the lines that
  \<open>Scan\<close> yields and whether \<open>scanner.Err()\<close> is set at the end.
\<close>

definition dropCR :: "string \<Rightarrow> string" where
  "dropCR s = (if s \<noteq> [] \<and> last s = CR then butlast s else s)"

fun ScanLines :: "string \<Rightarrow> string \<Rightarrow> string list \<times> bool" where
  "ScanLines cur [] =
     (if cur = [] then ([], False)
      else if 65536 \<le> length cur then ([], True)
      else ([dropCR cur], False))"
| "ScanLines cur (c # cs) =
     (if 65536 \<le> length cur then ([], True)
      else if c = NL then (case ScanLines [] cs of (ls, err) \<Rightarrow> (dropCR cur # ls, err))
      else ScanLines (cur @ [c]) cs)"

section \<open>The file transaction logger\<close>

text \<open>
  The logger's fields. A channel is the list of the values in its buffer; \<open>events\<close> is
  \<open>None\<close> while the field is the nil channel (before \<open>Run\<close>). \<open>logfile\<close> is the content of
  the log file behind \<open>l.file\<close>, opened for appending. \<open>draining\<close> and
  \<open>taken\<close> are not fields of the Go struct, they are the state of the goroutine that
  \<open>Run\<close> starts: \<open>draining\<close> says that it is still in its loop, \<open>taken\<close> is its loop
  variable \<open>e\<close> while it holds an event that it has received and not yet written.
\<close>

record FileTransactionLogger =
  events :: "Event list option"
  errors :: "error list"
  lastSequence :: "64 word"
  logfile :: string
  draining :: bool
  taken :: "Event option"

text \<open>
  \<open>NewFileTransactionLogger\<close>: the file is opened or created; the argument is the
  content found, \<open>None\<close> when \<open>os.OpenFile\<close> fails.
\<close>

definition NewFileTransactionLogger :: "string option \<Rightarrow> error + FileTransactionLogger" where
  "NewFileTransactionLogger disk =
     (case disk of
        None \<Rightarrow> Inl ErrCannotOpen
      | Some content \<Rightarrow>
          Inr \<lparr>events = None, errors = [], lastSequence = 0, logfile = content, draining = False, taken = None\<rparr>)"

text \<open>
  The goroutine of \<open>ReadEvents\<close>, over the lines of the scanner: what it sends on
  \<open>outEvent\<close>, what it sends on \<open>outError\<close> (it returns after sending an error), and
  \<open>l.lastSequence\<close> when it returns.
\<close>

fun read_loop :: "string list \<Rightarrow> bool \<Rightarrow> 64 word \<Rightarrow> Event list \<times> error list \<times> 64 word" where
  "read_loop [] scanErr lastSeq =
     ([], (if scanErr then [ErrReadFailure] else []), lastSeq)"
| "read_loop (line # lines) scanErr lastSeq =
     (case Sscanf line of
        None \<Rightarrow> ([], [ErrInputParse], lastSeq)
      | Some e \<Rightarrow>
          if lastSeq \<ge> Sequence e then ([], [ErrOutOfSequence], lastSeq)
          else (case read_loop lines scanErr (Sequence e) of
                  (es, errs, lastSeq') \<Rightarrow> (e # es, errs, lastSeq')))"

definition ReadEvents ::
  "FileTransactionLogger \<Rightarrow> Event list \<times> error list \<times> FileTransactionLogger" where
  "ReadEvents l =
     (case ScanLines [] (logfile l) of
        (lines, scanErr) \<Rightarrow>
          (case read_loop lines scanErr (lastSequence l) of
             (es, errs, lastSeq) \<Rightarrow> (es, errs, l\<lparr>lastSequence := lastSeq\<rparr>)))"

text \<open>
  \<open>Run\<close> makes the two channels (16 events, 1 error) and starts the draining goroutine.
\<close>

definition Run :: "FileTransactionLogger \<Rightarrow> FileTransactionLogger" where
  "Run l = l\<lparr>events := Some [], errors := [], draining := True, taken := None\<rparr>"

text \<open>
  A send on \<open>l.events\<close>: it blocks (\<open>None\<close>) on the nil channel and on a full buffer.
\<close>

definition send_event :: "Event \<Rightarrow> FileTransactionLogger \<Rightarrow> FileTransactionLogger option" where
  "send_event e l =
     (case events l of
        None \<Rightarrow> None
      | Some q \<Rightarrow> if length q < 16 then Some (l\<lparr>events := Some (q @ [e])\<rparr>) else None)"

definition WritePut ::
  "string \<Rightarrow> string \<Rightarrow> FileTransactionLogger \<Rightarrow> FileTransactionLogger option" where
  "WritePut k v l = send_event \<lparr>Sequence = 0, EventType = EventPut, Key = k, Value = v\<rparr> l"

definition WriteDelete :: "string \<Rightarrow> FileTransactionLogger \<Rightarrow> FileTransactionLogger option" where
  "WriteDelete k l = send_event \<lparr>Sequence = 0, EventType = EventDelete, Key = k, Value = []\<rparr> l"

definition Err :: "FileTransactionLogger \<Rightarrow> error list" where
  "Err l = errors l"

text \<open>
  The goroutine of \<open>Run\<close>, \<open>for e := range events { ... }\<close>, in its two steps.

  \<open>receive_event\<close>: the \<open>range\<close> takes the oldest event of the channel into \<open>e\<close>; the
  place in the buffer is free from then on, before anything is written. \<open>None\<close>: the
  goroutine has returned, it still holds an event, or it waits on an empty channel.

  \<open>write_event\<close>: the body of the loop on the event taken. It increments \<open>lastSequence\<close>
  (a \<open>uint64\<close>, so the increment wraps) and appends the line to the file. The outcome of
  the write is the environment's: \<open>WriteFailed n\<close> is a write that returns an error after
  \<open>n\<close> bytes of the line reached the file. After a failed write the goroutine sends the
  error and returns. \<open>None\<close>: the goroutine has returned or holds no event.
\<close>

datatype write_result = WriteOk | WriteFailed nat

definition receive_event :: "FileTransactionLogger \<Rightarrow> FileTransactionLogger option" where
  "receive_event l =
     (if \<not> draining l then None
      else case taken l of
        Some e \<Rightarrow> None
      | None \<Rightarrow>
          (case events l of
             None \<Rightarrow> None
           | Some [] \<Rightarrow> None
           | Some (e # q) \<Rightarrow> Some (l\<lparr>events := Some q, taken := Some e\<rparr>)))"

definition write_event :: "write_result \<Rightarrow> FileTransactionLogger \<Rightarrow> FileTransactionLogger option" where
  "write_event w l =
     (if \<not> draining l then None
      else case taken l of
        None \<Rightarrow> None
      | Some e \<Rightarrow>
          (case w of
             WriteOk \<Rightarrow>
               Some (l\<lparr>lastSequence := lastSequence l + 1,
                       logfile := logfile l @ format_event (lastSequence l + 1) e,
                       taken := None\<rparr>)
           | WriteFailed n \<Rightarrow>
               Some (l\<lparr>lastSequence := lastSequence l + 1,
                       logfile := logfile l @ take n (format_event (lastSequence l + 1) e),
                       errors := errors l @ [ErrWrite], draining := False,
                       taken := None\<rparr>)))"

text \<open>
  An interleaving of the callers of \<open>WritePut\<close> and \<open>WriteDelete\<close> with the goroutine is
  a list of actions; \<open>exec\<close> is \<open>None\<close> when an action of the list cannot happen where it
  stands (a call that blocks, a goroutine step that is not possible).
\<close>

datatype action =
    CallWritePut string string
  | CallWriteDelete string
  | Receive
  | Write write_result

fun step :: "action \<Rightarrow> FileTransactionLogger \<Rightarrow> FileTransactionLogger option" where
  "step (CallWritePut k v) l = WritePut k v l"
| "step (CallWriteDelete k) l = WriteDelete k l"
| "step Receive l = receive_event l"
| "step (Write w) l = write_event w l"

fun exec :: "action list \<Rightarrow> FileTransactionLogger \<Rightarrow> FileTransactionLogger option" where
  "exec [] l = Some l"
| "exec (a # as) l = (case step a l of None \<Rightarrow> None | Some l' \<Rightarrow> exec as l')"

text \<open>
  What an interleaving asks for: the events that its calls submit, in the order of the calls
  (the event of \<open>WritePut(k, v)\<close> is a Put of \<open>k\<close> and \<open>v\<close>, the event of \<open>WriteDelete(k)\<close>
  a Delete of \<open>k\<close> with an empty value), the number of its writes, and whether its writes
  all succeed. \<open>held\<close> is the event that the goroutine has taken and not yet written.
\<close>

fun submitted :: "action list \<Rightarrow> Event list" where
  "submitted [] = []"
| "submitted (CallWritePut k v # as) =
     \<lparr>Sequence = 0, EventType = EventPut, Key = k, Value = v\<rparr> # submitted as"
| "submitted (CallWriteDelete k # as) =
     \<lparr>Sequence = 0, EventType = EventDelete, Key = k, Value = []\<rparr> # submitted as"
| "submitted (Receive # as) = submitted as"
| "submitted (Write w # as) = submitted as"

fun writes :: "action list \<Rightarrow> nat" where
  "writes [] = 0"
| "writes (Write w # as) = Suc (writes as)"
| "writes (a # as) = writes as"

fun all_writes_ok :: "action list \<Rightarrow> bool" where
  "all_writes_ok [] = True"
| "all_writes_ok (Write w # as) = (w = WriteOk \<and> all_writes_ok as)"
| "all_writes_ok (a # as) = all_writes_ok as"

definition held :: "FileTransactionLogger \<Rightarrow> Event list" where
  "held l = (case taken l of None \<Rightarrow> [] | Some e \<Rightarrow> [e])"

text \<open>
  The events \<open>es\<close> with the sequence numbers that a writer at \<open>lastSeq\<close> gives them one
  after the other, and the lines it writes for them.
\<close>

fun numbered :: "64 word \<Rightarrow> Event list \<Rightarrow> (64 word \<times> Event) list" where
  "numbered lastSeq [] = []"
| "numbered lastSeq (e # es) = (lastSeq + 1, e) # numbered (lastSeq + 1) es"

definition log_lines :: "64 word \<Rightarrow> Event list \<Rightarrow> string" where
  "log_lines lastSeq es = concat (map (\<lambda>(seq, e). format_event seq e) (numbered lastSeq es))"

section \<open>Startup\<close>

text \<open>
  The switch of the replay loop: a Delete event deletes, a Put event puts, an event of
  another type changes nothing.
\<close>

definition apply_event :: "Event \<Rightarrow> store \<Rightarrow> store \<times> error option" where
  "apply_event e data =
     (if EventType e = EventDelete then Delete (Key e) data
      else if EventType e = EventPut then Put (Key e) (Value e) data
      else (data, None))"

text \<open>
  The loop \<open>for ok && err == nil { select ... }\<close> of \<open>initializeTransactionLog\<close>.
  \<open>outEvent\<close> is unbuffered, so every event is received before the reader goes on, and an
  error is sent only after the events before it are received. When the reader has sent an
  error and returned, both cases of the \<open>select\<close> are ready (the error, and the closed
  event channel): \<open>takesError\<close> says that the \<open>select\<close> takes the error; otherwise it
  sees the closed event channel and the loop ends with \<open>err == nil\<close>.
\<close>

fun replay_loop :: "bool \<Rightarrow> Event list \<Rightarrow> error list \<Rightarrow> store \<Rightarrow> store \<times> error option" where
  "replay_loop takesError (e # es) errs data =
     (case apply_event e data of
        (data', None) \<Rightarrow> replay_loop takesError es errs data'
      | (data', Some err) \<Rightarrow> (data', Some err))"
| "replay_loop takesError [] [] data = (data, None)"
| "replay_loop takesError [] (err # errs) data =
     (if takesError then (data, Some err) else (data, None))"

definition initializeTransactionLog ::
  "bool \<Rightarrow> string option \<Rightarrow> store \<Rightarrow> error option \<times> store \<times> FileTransactionLogger option" where
  "initializeTransactionLog takesError disk data =
     (case NewFileTransactionLogger disk of
        Inl err \<Rightarrow> (Some err, data, None)
      | Inr l \<Rightarrow>
          (case ReadEvents l of
             (es, errs, l') \<Rightarrow>
               (case replay_loop takesError es errs data of
                  (data', err) \<Rightarrow> (err, data', Some (Run l')))))"

text \<open>
  \<open>main\<close> calls \<open>initializeTransactionLog()\<close> as a statement, sets the routes up and
  serves. The process is then serving with the store and the logger that startup left, or
  it has stopped with a startup failure.
\<close>

datatype process = Serving store "FileTransactionLogger option" | StartupFailed error

definition main :: "bool \<Rightarrow> string option \<Rightarrow> process" where
  "main takesError disk =
     (case initializeTransactionLog takesError disk Map.empty of
        (err, data, l) \<Rightarrow> Serving data l)"

section \<open>Store properties\<close>

lemma mutate_no_error: "snd (mutate m data) = None"
  by (cases m) (simp_all add: Put_def Delete_def)

lemma mutate_all_append:
  "mutate_all (ms @ [m]) data = mutate m (fst (mutate_all ms data))"
proof (induction ms arbitrary: data)
  case Nil
  show ?case
    using mutate_no_error [of m data] by (cases "mutate m data") simp
next
  case (Cons a ms)
  obtain d where d: "mutate a data = (d, None)"
    using mutate_no_error [of a data] by (cases "mutate a data") simp
  show ?case using Cons.IH [of d] by (simp add: d)
qed

lemma mutate_all_no_error: "snd (mutate_all ms data) = None"
proof (induction ms arbitrary: data)
  case Nil
  show ?case by simp
next
  case (Cons a ms)
  obtain d where d: "mutate a data = (d, None)"
    using mutate_no_error [of a data] by (cases "mutate a data") simp
  show ?case using Cons.IH [of d] by (simp add: d)
qed

lemma last_mutation_snoc:
  "last_mutation k (ms @ [m]) = (if mutation_key m = k then Some m else last_mutation k ms)"
  by (simp add: last_mutation_def)

lemma get_after_mutations:
  "Get k (fst (mutate_all ms Map.empty)) = expected_get k ms"
proof (induction ms rule: rev_induct)
  case Nil
  show ?case by (simp add: Get_def expected_get_def last_mutation_def)
next
  case (snoc m ms)
  show ?case
  proof (cases m)
    case (DoPut k' v)
    then show ?thesis
      using snoc.IH
      by (simp add: mutate_all_append last_mutation_snoc Put_def Get_def expected_get_def)
  next
    case (DoDelete k')
    then show ?thesis
      using snoc.IH
      by (simp add: mutate_all_append last_mutation_snoc Delete_def Get_def expected_get_def)
  qed
qed

text \<open>
  C7. After any finite sequence of Put and Delete operations on an empty store, no operation
  having failed, Get of a key returns the value of the last Put of that key when no Delete
  of the key follows it, and the no-such-key error when the key was never Put or its
  last mutation is a Delete.
\<close>

theorem C7_get_reflects_last_mutation:
  "snd (mutate_all ms Map.empty) = None \<and>
   Get k (fst (mutate_all ms Map.empty)) =
     (case last_mutation k ms of
        Some (DoPut _ v) \<Rightarrow> (v, None)
      | Some (DoDelete _) \<Rightarrow> ('''', Some ErrorNoSuchKey)
      | None \<Rightarrow> ('''', Some ErrorNoSuchKey))"
  using get_after_mutations [of k ms] mutate_all_no_error [of ms Map.empty]
  by (simp add: expected_get_def)

text \<open>
  C8. Delete returns no error in every store and for every key; on a store that does not
  hold the key, a first and a second Delete both return no error and both leave the store
  as it was.
\<close>

theorem C8_delete_idempotent:
  "snd (Delete key data) = None \<and>
   (data key = None \<longrightarrow>
      Delete key data = (data, None) \<and>
      Delete key (fst (Delete key data)) = (data, None))"
  by (auto simp: Delete_def)

theorem C8_delete_idempotent_witness:
  "snd (Delete ''a'' [''b'' \<mapsto> ''2'']) = None \<and>
   [''b'' \<mapsto> ''2''] ''a'' = None \<and>
   Delete ''a'' [''b'' \<mapsto> ''2''] = ([''b'' \<mapsto> ''2''], None) \<and>
   Delete ''a'' (fst (Delete ''a'' [''b'' \<mapsto> ''2''])) = ([''b'' \<mapsto> ''2''], None)"
  using C8_delete_idempotent [of "''a''" "[''b'' \<mapsto> ''2'']"] by simp

section \<open>Properties of replay\<close>

lemma read_loop_errors_le1:
  "read_loop lines scanErr lastSeq = (es, errs, m) \<Longrightarrow> length errs \<le> 1"
proof (induction lines arbitrary: lastSeq es errs m)
  case Nil
  then show ?case by (auto split: if_splits)
next
  case (Cons line lines)
  then show ?case
    by (auto split: option.splits if_splits prod.splits)
qed

lemma read_loop_increasing:
  "read_loop lines scanErr lastSeq = (es, errs, m) \<Longrightarrow>
   sorted_wrt (<) (lastSeq # map Sequence es)"
proof (induction lines arbitrary: lastSeq es errs m)
  case Nil
  then show ?case by simp
next
  case (Cons line lines)
  show ?case
  proof (cases "Sscanf line")
    case None
    with Cons.prems show ?thesis by simp
  next
    case (Some e)
    show ?thesis
    proof (cases "lastSeq \<ge> Sequence e")
      case True
      with Some Cons.prems show ?thesis by simp
    next
      case False
      obtain es' errs' m' where r: "read_loop lines scanErr (Sequence e) = (es', errs', m')"
        by (cases "read_loop lines scanErr (Sequence e)") auto
      from Cons.IH [OF r] have srt: "sorted_wrt (<) (Sequence e # map Sequence es')" .
      from False have lt: "lastSeq < Sequence e" by simp
      from Some False r Cons.prems have es: "es = e # es'" by simp
      from srt have "\<forall>x \<in> set (map Sequence es'). Sequence e < x" by simp
      with lt have "\<forall>x \<in> set (map Sequence es'). lastSeq < x" by fastforce
      with srt lt show ?thesis unfolding es by simp
    qed
  qed
qed

lemma read_loop_last:
  "read_loop lines scanErr lastSeq = (es, errs, m) \<Longrightarrow> m = last (lastSeq # map Sequence es)"
proof (induction lines arbitrary: lastSeq es errs m)
  case Nil
  then show ?case by simp
next
  case (Cons line lines)
  then show ?case
    by (auto split: option.splits if_splits prod.splits)
qed

lemma read_loop_append:
  "read_loop pre False lastSeq = (es, [], m) \<Longrightarrow>
   read_loop (pre @ rest) scanErr lastSeq =
     (case read_loop rest scanErr m of (es2, errs2, m2) \<Rightarrow> (es @ es2, errs2, m2))"
proof (induction pre arbitrary: lastSeq es)
  case Nil
  then show ?case by (simp split: prod.splits)
next
  case (Cons line pre)
  show ?case
  proof (cases "Sscanf line")
    case None
    with Cons.prems show ?thesis by simp
  next
    case (Some e)
    show ?thesis
    proof (cases "lastSeq \<ge> Sequence e")
      case True
      with Some Cons.prems show ?thesis by simp
    next
      case False
      obtain es' errs' m' where r: "read_loop pre False (Sequence e) = (es', errs', m')"
        by (cases "read_loop pre False (Sequence e)") auto
      from Some False r Cons.prems have eq: "es = e # es'" "errs' = []" "m' = m" by simp_all
      from r eq have r': "read_loop pre False (Sequence e) = (es', [], m)" by simp
      show ?thesis
        using Cons.IH [OF r'] Some False eq by (simp split: prod.splits)
    qed
  qed
qed

lemma read_loop_out_of_sequence:
  "Sscanf bad = Some e \<Longrightarrow> Sequence e \<le> m \<Longrightarrow>
   read_loop (bad # rest) scanErr m = ([], [ErrOutOfSequence], m)"
  by simp

lemma read_loop_parse_error:
  "Sscanf bad = None \<Longrightarrow> read_loop (bad # rest) scanErr m = ([], [ErrInputParse], m)"
  by simp

lemma increasing_last_is_Max:
  fixes x :: "'a::linorder"
  shows "sorted_wrt (<) (x # xs) \<Longrightarrow> last (x # xs) = Max (set (x # xs))"
proof (induction xs arbitrary: x)
  case Nil
  show ?case by simp
next
  case (Cons y ys)
  from Cons.prems have s: "sorted_wrt (<) (y # ys)" and xy: "x < y" by simp_all
  have "y \<le> Max (set (y # ys))" by simp
  with xy have "x \<le> Max (set (y # ys))" by (metis less_le_trans less_imp_le)
  then have "max x (Max (set (y # ys))) = Max (set (y # ys))" by (rule max_absorb2)
  moreover have "Max (set (x # y # ys)) = max x (Max (set (y # ys)))"
    by (simp only: list.set) (rule Max_insert, simp_all)
  ultimately show ?case using Cons.IH [OF s] by simp
qed

lemma read_loop_length_clean:
  "read_loop pre False lastSeq = (es, [], m) \<Longrightarrow> length es = length pre"
proof (induction pre arbitrary: lastSeq es)
  case Nil
  then show ?case by simp
next
  case (Cons line pre)
  then show ?case
    by (auto split: option.splits if_splits prod.splits)
qed

lemmas scan_eval =
  Sscanf_def scanUint_def advance_def convertString_def isSpace_def isDigit_def
  parse_decimal_def dropCR_def

text \<open>
  C2. When the first two lines of a log both parse and the second line's sequence number
  is not greater than the first line's, replay sends exactly one error, the out-of-sequence
  error, after no event or after the first line's event alone. In general: the events that
  replay delivers have strictly increasing sequence numbers above the logger's starting
  \<open>lastSequence\<close>; and when the lines before a line replay without error, leaving the
  running maximum \<open>m\<close> (the greatest of the starting \<open>lastSequence\<close> and the sequences
  delivered), and that line parses with a sequence not greater than \<open>m\<close>, replay
  delivers the events of the lines before it, then the out-of-sequence error, and nothing
  more.
\<close>

theorem C2_out_of_sequence_ends_stream:
  "(ScanLines [] (logfile l) = (lineA # lineB # rest, scanErr) \<and>
    Sscanf lineA = Some evA \<and> Sscanf lineB = Some evB \<and> Sequence evB \<le> Sequence evA \<longrightarrow>
      fst (snd (ReadEvents l)) = [ErrOutOfSequence] \<and>
      (fst (ReadEvents l) = [] \<or> fst (ReadEvents l) = [evA])) \<and>
   sorted_wrt (<) (lastSequence l # map Sequence (fst (ReadEvents l))) \<and>
   (ScanLines [] (logfile l) = (pre @ bad # rest', scanErr') \<and>
    read_loop pre False (lastSequence l) = (es, [], m) \<and>
    Sscanf bad = Some e \<and> Sequence e \<le> m \<longrightarrow>
      m = Max (set (lastSequence l # map Sequence es)) \<and>
      length es = length pre \<and>
      ReadEvents l = (es, [ErrOutOfSequence], l\<lparr>lastSequence := m\<rparr>))"
proof (intro conjI impI)
  assume a: "ScanLines [] (logfile l) = (lineA # lineB # rest, scanErr) \<and>
    Sscanf lineA = Some evA \<and> Sscanf lineB = Some evB \<and> Sequence evB \<le> Sequence evA"
  then show "fst (snd (ReadEvents l)) = [ErrOutOfSequence]"
    by (auto simp: ReadEvents_def split: prod.splits)
  from a show "fst (ReadEvents l) = [] \<or> fst (ReadEvents l) = [evA]"
    by (auto simp: ReadEvents_def split: prod.splits)
next
  obtain lines se where sl: "ScanLines [] (logfile l) = (lines, se)"
    by (cases "ScanLines [] (logfile l)") auto
  obtain evs errs m' where rl: "read_loop lines se (lastSequence l) = (evs, errs, m')"
    by (cases "read_loop lines se (lastSequence l)") auto
  from read_loop_increasing [OF rl] sl rl
  show "sorted_wrt (<) (lastSequence l # map Sequence (fst (ReadEvents l)))"
    by (simp add: ReadEvents_def)
next
  assume b: "ScanLines [] (logfile l) = (pre @ bad # rest', scanErr') \<and>
    read_loop pre False (lastSequence l) = (es, [], m) \<and>
    Sscanf bad = Some e \<and> Sequence e \<le> m"
  then have clean: "read_loop pre False (lastSequence l) = (es, [], m)" by simp
  from read_loop_last [OF clean] increasing_last_is_Max [OF read_loop_increasing [OF clean]]
  show "m = Max (set (lastSequence l # map Sequence es))" by simp
  from read_loop_length_clean [OF clean] show "length es = length pre" .
  from b have "read_loop (bad # rest') scanErr' m = ([], [ErrOutOfSequence], m)"
    by simp
  with read_loop_append [OF clean, of "bad # rest'" scanErr'] b
  show "ReadEvents l = (es, [ErrOutOfSequence], l\<lparr>lastSequence := m\<rparr>)"
    by (simp add: ReadEvents_def)
qed

theorem C2_out_of_sequence_ends_stream_witness:
  "ScanLines []
     (logfile \<lparr>events = None, errors = [], lastSequence = 0,
        logfile = [CHR ''2'', TAB, CHR ''2'', TAB, CHR ''a'', TAB, CHR ''x'', NL,
                   CHR ''1'', TAB, CHR ''2'', TAB, CHR ''b'', TAB, CHR ''y'', NL],
        draining = False, taken = None\<rparr>) =
     ([[CHR ''2'', TAB, CHR ''2'', TAB, CHR ''a'', TAB, CHR ''x''],
       [CHR ''1'', TAB, CHR ''2'', TAB, CHR ''b'', TAB, CHR ''y'']], False) \<and>
   Sscanf [CHR ''2'', TAB, CHR ''2'', TAB, CHR ''a'', TAB, CHR ''x''] =
     Some \<lparr>Sequence = 2, EventType = 2, Key = ''a'', Value = ''x''\<rparr> \<and>
   Sscanf [CHR ''1'', TAB, CHR ''2'', TAB, CHR ''b'', TAB, CHR ''y''] =
     Some \<lparr>Sequence = 1, EventType = 2, Key = ''b'', Value = ''y''\<rparr> \<and>
   Sequence \<lparr>Sequence = 1, EventType = 2, Key = ''b'', Value = ''y''\<rparr>
     \<le> Sequence \<lparr>Sequence = 2, EventType = 2, Key = ''a'', Value = ''x''\<rparr> \<and>
   read_loop [[CHR ''2'', TAB, CHR ''2'', TAB, CHR ''a'', TAB, CHR ''x'']] False 0 =
     ([\<lparr>Sequence = 2, EventType = 2, Key = ''a'', Value = ''x''\<rparr>], [], 2) \<and>
   ReadEvents
     \<lparr>events = None, errors = [], lastSequence = 0,
        logfile = [CHR ''2'', TAB, CHR ''2'', TAB, CHR ''a'', TAB, CHR ''x'', NL,
                   CHR ''1'', TAB, CHR ''2'', TAB, CHR ''b'', TAB, CHR ''y'', NL],
        draining = False, taken = None\<rparr> =
     ([\<lparr>Sequence = 2, EventType = 2, Key = ''a'', Value = ''x''\<rparr>], [ErrOutOfSequence],
      \<lparr>events = None, errors = [], lastSequence = 2,
        logfile = [CHR ''2'', TAB, CHR ''2'', TAB, CHR ''a'', TAB, CHR ''x'', NL,
                   CHR ''1'', TAB, CHR ''2'', TAB, CHR ''b'', TAB, CHR ''y'', NL],
        draining = False, taken = None\<rparr>)"
proof -
  let ?a = "[CHR ''2'', TAB, CHR ''2'', TAB, CHR ''a'', TAB, CHR ''x'']"
  let ?b = "[CHR ''1'', TAB, CHR ''2'', TAB, CHR ''b'', TAB, CHR ''y'']"
  let ?ea = "\<lparr>Sequence = 2, EventType = 2, Key = ''a'', Value = ''x''\<rparr>"
  let ?eb = "\<lparr>Sequence = 1, EventType = 2, Key = ''b'', Value = ''y''\<rparr>"
  let ?L = "\<lparr>events = None, errors = [], lastSequence = 0,
        logfile = ?a @ [NL] @ ?b @ [NL], draining = False, taken = None\<rparr>"
  have lines: "ScanLines [] (logfile ?L) = (?a # ?b # [], False)"
    by (simp add: dropCR_def)
  have lines': "ScanLines [] (logfile ?L) = ([?a] @ ?b # [], False)"
    by (simp add: dropCR_def)
  have pa: "Sscanf ?a = Some ?ea" by (simp add: scan_eval)
  have pb: "Sscanf ?b = Some ?eb" by (simp add: scan_eval)
  have le: "Sequence ?eb \<le> Sequence ?ea" by simp
  have le2: "Sequence ?eb \<le> 2" by simp
  have clean: "read_loop [?a] False (lastSequence ?L) = ([?ea], [], 2)"
    by (simp add: pa)
  from C2_out_of_sequence_ends_stream
      [of ?L ?a ?b "[]" False ?ea ?eb "[?a]" ?b "[]" False "[?ea]" 2 ?eb]
    lines lines' pa pb le le2 clean
  have "ReadEvents ?L = ([?ea], [ErrOutOfSequence], ?L\<lparr>lastSequence := 2\<rparr>)"
    by blast
  with lines pa pb le clean show ?thesis by simp
qed

text \<open>
  C10. On a fresh logger (\<open>lastSequence = 0\<close>), a log whose first line parses with
  sequence number 0 is rejected: replay delivers no event and exactly one error, the
  out-of-sequence error. Hence a log whose first line parses and whose replay sends no error
  begins with a sequence number of at least 1.
\<close>

theorem C10_sequence_zero_rejected:
  assumes "NewFileTransactionLogger (Some content) = Inr l"
    and "ScanLines [] content = (line # lines, scanErr)"
    and "Sscanf line = Some e"
  shows "(Sequence e = 0 \<longrightarrow>
            fst (ReadEvents l) = [] \<and> fst (snd (ReadEvents l)) = [ErrOutOfSequence]) \<and>
         (fst (snd (ReadEvents l)) = [] \<longrightarrow> 1 \<le> Sequence e)"
proof -
  from assms(1) have l: "lastSequence l = 0" "logfile l = content"
    by (auto simp: NewFileTransactionLogger_def)
  show ?thesis
  proof (cases "Sequence e = 0")
    case True
    with l assms(2,3) show ?thesis
      by (simp add: ReadEvents_def)
  next
    case False
    then have "1 \<le> Sequence e"
      by (simp add: word_le_nat_alt unat_gt_0 Suc_le_eq)
    with False show ?thesis by simp
  qed
qed

theorem C10_sequence_zero_rejected_witness:
  "NewFileTransactionLogger (Some [CHR ''0'', TAB, CHR ''2'', TAB, CHR ''k'', TAB, CHR ''v'', NL]) =
     Inr \<lparr>events = None, errors = [], lastSequence = 0,
          logfile = [CHR ''0'', TAB, CHR ''2'', TAB, CHR ''k'', TAB, CHR ''v'', NL],
          draining = False, taken = None\<rparr> \<and>
   ScanLines [] [CHR ''0'', TAB, CHR ''2'', TAB, CHR ''k'', TAB, CHR ''v'', NL] =
     ([CHR ''0'', TAB, CHR ''2'', TAB, CHR ''k'', TAB, CHR ''v''] # [], False) \<and>
   Sscanf [CHR ''0'', TAB, CHR ''2'', TAB, CHR ''k'', TAB, CHR ''v''] =
     Some \<lparr>Sequence = 0, EventType = 2, Key = ''k'', Value = ''v''\<rparr> \<and>
   fst (ReadEvents \<lparr>events = None, errors = [], lastSequence = 0,
          logfile = [CHR ''0'', TAB, CHR ''2'', TAB, CHR ''k'', TAB, CHR ''v'', NL],
          draining = False, taken = None\<rparr>) = [] \<and>
   fst (snd (ReadEvents \<lparr>events = None, errors = [], lastSequence = 0,
          logfile = [CHR ''0'', TAB, CHR ''2'', TAB, CHR ''k'', TAB, CHR ''v'', NL],
          draining = False, taken = None\<rparr>)) = [ErrOutOfSequence] \<and>
   NewFileTransactionLogger (Some [CHR ''1'', TAB, CHR ''2'', TAB, CHR ''k'', TAB, CHR ''v'', NL]) =
     Inr \<lparr>events = None, errors = [], lastSequence = 0,
          logfile = [CHR ''1'', TAB, CHR ''2'', TAB, CHR ''k'', TAB, CHR ''v'', NL],
          draining = False, taken = None\<rparr> \<and>
   ScanLines [] [CHR ''1'', TAB, CHR ''2'', TAB, CHR ''k'', TAB, CHR ''v'', NL] =
     ([CHR ''1'', TAB, CHR ''2'', TAB, CHR ''k'', TAB, CHR ''v''] # [], False) \<and>
   Sscanf [CHR ''1'', TAB, CHR ''2'', TAB, CHR ''k'', TAB, CHR ''v''] =
     Some \<lparr>Sequence = 1, EventType = 2, Key = ''k'', Value = ''v''\<rparr> \<and>
   fst (snd (ReadEvents \<lparr>events = None, errors = [], lastSequence = 0,
          logfile = [CHR ''1'', TAB, CHR ''2'', TAB, CHR ''k'', TAB, CHR ''v'', NL],
          draining = False, taken = None\<rparr>)) = [] \<and>
   (1 :: 64 word) \<le> Sequence \<lparr>Sequence = 1, EventType = 2, Key = ''k'', Value = ''v''\<rparr>"
proof -
  let ?z = "[CHR ''0'', TAB, CHR ''2'', TAB, CHR ''k'', TAB, CHR ''v'']"
  let ?o = "[CHR ''1'', TAB, CHR ''2'', TAB, CHR ''k'', TAB, CHR ''v'']"
  let ?ez = "\<lparr>Sequence = 0, EventType = 2, Key = ''k'', Value = ''v''\<rparr>"
  let ?eo = "\<lparr>Sequence = 1, EventType = 2, Key = ''k'', Value = ''v''\<rparr>"
  let ?Lz = "\<lparr>events = None, errors = [], lastSequence = 0, logfile = ?z @ [NL],
              draining = False, taken = None\<rparr>"
  let ?Lo = "\<lparr>events = None, errors = [], lastSequence = 0, logfile = ?o @ [NL],
              draining = False, taken = None\<rparr>"
  have nz: "NewFileTransactionLogger (Some (?z @ [NL])) = Inr ?Lz"
    and no: "NewFileTransactionLogger (Some (?o @ [NL])) = Inr ?Lo"
    by (simp_all add: NewFileTransactionLogger_def)
  have sz: "ScanLines [] (?z @ [NL]) = (?z # [], False)"
    and so: "ScanLines [] (?o @ [NL]) = (?o # [], False)"
    by (simp_all add: dropCR_def)
  have pz: "Sscanf ?z = Some ?ez" and po: "Sscanf ?o = Some ?eo"
    by (simp_all add: scan_eval)
  have ro: "fst (snd (ReadEvents ?Lo)) = []"
    using so po by (simp add: ReadEvents_def)
  from C10_sequence_zero_rejected [OF nz sz pz]
  have z: "fst (ReadEvents ?Lz) = [] \<and> fst (snd (ReadEvents ?Lz)) = [ErrOutOfSequence]"
    by simp
  from C10_sequence_zero_rejected [OF no so po] ro
  have o: "1 \<le> Sequence ?eo" by blast
  from nz no sz so pz po ro z o show ?thesis by simp
qed

section \<open>Write, then replay\<close>

lemmas run_eval =
  Run_def send_event_def WritePut_def WriteDelete_def receive_event_def write_event_def
  format_event_def decimal.simps digit_char_def EventDelete_def EventPut_def

text \<open>
  C1. The round trip at one Delete event. A fresh logger on an empty file is started,
  \<open>WriteDelete("a")\<close> submits its event, the goroutine takes it and its write succeeds:
  the file holds the line \<open>1<TAB>1<TAB>a<TAB>\<close>, with an empty fourth field. A fresh logger
  replaying that file delivers no event and sends the input-parse error: the fourth \<open>%s\<close>
  of \<open>Sscanf\<close> finds the line at its end.
\<close>

theorem C1_delete_event_does_not_replay:
  "NewFileTransactionLogger (Some []) =
     Inr \<lparr>events = None, errors = [], lastSequence = 0, logfile = [], draining = False,
          taken = None\<rparr> \<and>
   WriteDelete ''a''
     (Run \<lparr>events = None, errors = [], lastSequence = 0, logfile = [], draining = False,
            taken = None\<rparr>) =
     Some \<lparr>events = Some [\<lparr>Sequence = 0, EventType = EventDelete, Key = ''a'', Value = []\<rparr>],
           errors = [], lastSequence = 0, logfile = [], draining = True, taken = None\<rparr> \<and>
   receive_event
     \<lparr>events = Some [\<lparr>Sequence = 0, EventType = EventDelete, Key = ''a'', Value = []\<rparr>],
        errors = [], lastSequence = 0, logfile = [], draining = True, taken = None\<rparr> =
     Some \<lparr>events = Some [], errors = [], lastSequence = 0, logfile = [], draining = True,
           taken = Some \<lparr>Sequence = 0, EventType = EventDelete, Key = ''a'', Value = []\<rparr>\<rparr> \<and>
   write_event WriteOk
     \<lparr>events = Some [], errors = [], lastSequence = 0, logfile = [], draining = True,
        taken = Some \<lparr>Sequence = 0, EventType = EventDelete, Key = ''a'', Value = []\<rparr>\<rparr> =
     Some \<lparr>events = Some [], errors = [], lastSequence = 1,
           logfile = [CHR ''1'', TAB, CHR ''1'', TAB, CHR ''a'', TAB, NL], draining = True,
           taken = None\<rparr> \<and>
   ScanLines [] [CHR ''1'', TAB, CHR ''1'', TAB, CHR ''a'', TAB, NL] =
     ([[CHR ''1'', TAB, CHR ''1'', TAB, CHR ''a'', TAB]], False) \<and>
   Sscanf [CHR ''1'', TAB, CHR ''1'', TAB, CHR ''a'', TAB] = None \<and>
   ReadEvents
     \<lparr>events = None, errors = [], lastSequence = 0,
        logfile = [CHR ''1'', TAB, CHR ''1'', TAB, CHR ''a'', TAB, NL], draining = False,
        taken = None\<rparr> =
     ([], [ErrInputParse],
      \<lparr>events = None, errors = [], lastSequence = 0,
        logfile = [CHR ''1'', TAB, CHR ''1'', TAB, CHR ''a'', TAB, NL], draining = False,
        taken = None\<rparr>)"
proof -
  have sl: "ScanLines [] [CHR ''1'', TAB, CHR ''1'', TAB, CHR ''a'', TAB, NL] =
     ([[CHR ''1'', TAB, CHR ''1'', TAB, CHR ''a'', TAB]], False)"
    by (simp add: dropCR_def)
  have ps: "Sscanf [CHR ''1'', TAB, CHR ''1'', TAB, CHR ''a'', TAB] = None"
    by (simp add: scan_eval)
  have wr: "write_event WriteOk
     \<lparr>events = Some [], errors = [], lastSequence = 0, logfile = [], draining = True,
        taken = Some \<lparr>Sequence = 0, EventType = EventDelete, Key = ''a'', Value = []\<rparr>\<rparr> =
     Some \<lparr>events = Some [], errors = [], lastSequence = 1,
           logfile = [CHR ''1'', TAB, CHR ''1'', TAB, CHR ''a'', TAB, NL], draining = True,
           taken = None\<rparr>"
    by (simp add: run_eval)
  show ?thesis
    using sl ps wr by (simp add: ReadEvents_def NewFileTransactionLogger_def run_eval)
qed

text \<open>
  C3. Startup on a log file whose only line is \<open>x\<close>: replay sends the input-parse error and
  \<open>initializeTransactionLog\<close> returns it (when the loop's \<open>select\<close> takes the error), the
  writer is started all the same, and \<open>main\<close>, which drops the result of
  \<open>initializeTransactionLog\<close>, goes on to serve requests.
\<close>

theorem C3_main_serves_after_failed_replay:
  "initializeTransactionLog True (Some ''x'') Map.empty =
     (Some ErrInputParse, Map.empty,
      Some \<lparr>events = Some [], errors = [], lastSequence = 0, logfile = ''x'',
            draining = True, taken = None\<rparr>) \<and>
   main True (Some ''x'') =
     Serving Map.empty
       (Some \<lparr>events = Some [], errors = [], lastSequence = 0, logfile = ''x'',
             draining = True, taken = None\<rparr>)"
proof -
  have sl: "ScanLines [] ''x'' = ([''x''], False)"
    by (simp add: dropCR_def)
  have ps: "Sscanf ''x'' = None"
    by (simp add: scan_eval)
  have init: "initializeTransactionLog True (Some ''x'') Map.empty =
     (Some ErrInputParse, Map.empty,
      Some \<lparr>events = Some [], errors = [], lastSequence = 0, logfile = ''x'',
            draining = True, taken = None\<rparr>)"
    using sl ps
    by (simp add: initializeTransactionLog_def NewFileTransactionLogger_def ReadEvents_def
        Run_def)
  then show ?thesis by (simp add: main_def)
qed

lemma main_always_serves: "main takesError disk \<noteq> StartupFailed err"
  by (simp add: main_def split: prod.splits)

section \<open>The writer after a failed write\<close>

lemma send_event_fields:
  "send_event e l = Some l' \<Longrightarrow>
   logfile l' = logfile l \<and> errors l' = errors l \<and> lastSequence l' = lastSequence l \<and>
   draining l' = draining l \<and> taken l' = taken l"
  by (auto simp: send_event_def split: option.splits if_splits)

lemma exec_after_return:
  "\<not> draining l \<Longrightarrow> exec as l = Some l' \<Longrightarrow>
   logfile l' = logfile l \<and> errors l' = errors l \<and> lastSequence l' = lastSequence l \<and>
   \<not> draining l' \<and> writes as = 0"
proof (induction as arbitrary: l)
  case Nil
  then show ?case by simp
next
  case (Cons a as)
  have sub: "send_event e l = Some l1 \<Longrightarrow> exec as l1 = Some l' \<Longrightarrow>
    logfile l' = logfile l \<and> errors l' = errors l \<and> lastSequence l' = lastSequence l \<and>
    \<not> draining l' \<and> writes as = 0" for e l1
  proof -
    assume s: "send_event e l = Some l1" and r: "exec as l1 = Some l'"
    from send_event_fields [OF s] Cons.prems(1) have "\<not> draining l1" by simp
    from Cons.IH [OF this r] send_event_fields [OF s] show ?thesis by simp
  qed
  show ?case
  proof (cases a)
    case (CallWritePut k v)
    with Cons.prems obtain l1 where
      "send_event \<lparr>Sequence = 0, EventType = EventPut, Key = k, Value = v\<rparr> l = Some l1"
      "exec as l1 = Some l'"
      by (auto simp: WritePut_def split: option.splits)
    from sub [OF this] CallWritePut show ?thesis by simp
  next
    case (CallWriteDelete k)
    with Cons.prems obtain l1 where
      "send_event \<lparr>Sequence = 0, EventType = EventDelete, Key = k, Value = []\<rparr> l = Some l1"
      "exec as l1 = Some l'"
      by (auto simp: WriteDelete_def split: option.splits)
    from sub [OF this] CallWriteDelete show ?thesis by simp
  next
    case Receive
    with Cons.prems show ?thesis by (simp add: receive_event_def)
  next
    case (Write w)
    with Cons.prems show ?thesis by (simp add: write_event_def)
  qed
qed

text \<open>
  C6. When the write of an event fails, the error is appended to the error channel that
  \<open>Err()\<close> returns and the goroutine has returned: in every continuation, whatever is
  submitted, the goroutine neither takes nor writes an event again (so the failed write is
  not tried again), and the log file, the error channel and \<open>lastSequence\<close> stay as the
  failure left them.
\<close>

theorem C6_write_failure_stops_writer:
  assumes "write_event (WriteFailed n) l = Some l'"
    and "exec as l' = Some l''"
  shows "Err l' = Err l @ [ErrWrite] \<and> \<not> draining l' \<and>
         receive_event l' = None \<and> write_event w l' = None \<and>
         writes as = 0 \<and> logfile l'' = logfile l' \<and> Err l'' = Err l' \<and>
         lastSequence l'' = lastSequence l' \<and>
         receive_event l'' = None \<and> write_event w l'' = None"
proof -
  from assms(1) have e: "Err l' = Err l @ [ErrWrite]" and d: "\<not> draining l'"
    by (auto simp: write_event_def Err_def split: if_splits option.splits)
  from d have n1: "receive_event l' = None" "write_event w l' = None"
    by (simp_all add: receive_event_def write_event_def)
  note after = exec_after_return [OF d assms(2)]
  from after have n2: "receive_event l'' = None" "write_event w l'' = None"
    by (simp_all add: receive_event_def write_event_def)
  from e d n1 n2 after show ?thesis by (simp add: Err_def)
qed

theorem C6_write_failure_stops_writer_witness:
  "write_event (WriteFailed 3)
     \<lparr>events = Some [], errors = [], lastSequence = 0, logfile = [], draining = True,
        taken = Some \<lparr>Sequence = 0, EventType = EventPut, Key = ''a'', Value = ''1''\<rparr>\<rparr> =
     Some \<lparr>events = Some [], errors = [ErrWrite], lastSequence = 1,
           logfile = [CHR ''1'', TAB, CHR ''2''], draining = False, taken = None\<rparr> \<and>
   exec [CallWritePut ''b'' ''2'']
     \<lparr>events = Some [], errors = [ErrWrite], lastSequence = 1,
        logfile = [CHR ''1'', TAB, CHR ''2''], draining = False, taken = None\<rparr> =
     Some \<lparr>events = Some [\<lparr>Sequence = 0, EventType = EventPut, Key = ''b'', Value = ''2''\<rparr>],
           errors = [ErrWrite], lastSequence = 1,
           logfile = [CHR ''1'', TAB, CHR ''2''], draining = False, taken = None\<rparr> \<and>
   Err \<lparr>events = Some [], errors = [ErrWrite], lastSequence = 1,
        logfile = [CHR ''1'', TAB, CHR ''2''], draining = False, taken = None\<rparr> = [ErrWrite] \<and>
   receive_event
     \<lparr>events = Some [\<lparr>Sequence = 0, EventType = EventPut, Key = ''b'', Value = ''2''\<rparr>],
        errors = [ErrWrite], lastSequence = 1,
        logfile = [CHR ''1'', TAB, CHR ''2''], draining = False, taken = None\<rparr> = None \<and>
   write_event WriteOk
     \<lparr>events = Some [], errors = [ErrWrite], lastSequence = 1,
        logfile = [CHR ''1'', TAB, CHR ''2''], draining = False, taken = None\<rparr> = None \<and>
   logfile \<lparr>events = Some [\<lparr>Sequence = 0, EventType = EventPut, Key = ''b'', Value = ''2''\<rparr>],
           errors = [ErrWrite], lastSequence = 1,
           logfile = [CHR ''1'', TAB, CHR ''2''], draining = False, taken = None\<rparr> =
     [CHR ''1'', TAB, CHR ''2'']"
proof -
  let ?l = "\<lparr>events = Some [], errors = [], lastSequence = 0, logfile = [], draining = True,
        taken = Some \<lparr>Sequence = 0, EventType = EventPut, Key = ''a'', Value = ''1''\<rparr>\<rparr>"
  let ?l' = "\<lparr>events = Some [], errors = [ErrWrite], lastSequence = 1,
        logfile = [CHR ''1'', TAB, CHR ''2''], draining = False, taken = None\<rparr>"
  let ?as = "[CallWritePut ''b'' ''2'']"
  let ?l'' = "\<lparr>events = Some [\<lparr>Sequence = 0, EventType = EventPut, Key = ''b'', Value = ''2''\<rparr>],
           errors = [ErrWrite], lastSequence = 1,
           logfile = [CHR ''1'', TAB, CHR ''2''], draining = False, taken = None\<rparr>"
  have f: "write_event (WriteFailed 3) ?l = Some ?l'"
    by (simp add: run_eval)
  have x: "exec ?as ?l' = Some ?l''"
    by (simp add: WritePut_def send_event_def)
  from C6_write_failure_stops_writer [OF f x, of WriteOk] f x
  show ?thesis by (simp add: Err_def)
qed

section \<open>The writer in normal operation\<close>

lemma log_lines_Nil: "log_lines lastSeq [] = []"
  by (simp add: log_lines_def)

lemma log_lines_Cons:
  "log_lines lastSeq (e # es) = format_event (lastSeq + 1) e @ log_lines (lastSeq + 1) es"
  by (simp add: log_lines_def)

lemma send_event_queue:
  "send_event e l = Some l1 \<Longrightarrow> events l = Some q \<Longrightarrow>
   events l1 = Some (q @ [e]) \<and> length q < 16"
  by (auto simp: send_event_def split: if_splits)

lemma exec_fifo:
  "exec as l = Some l' \<Longrightarrow> all_writes_ok as \<Longrightarrow> events l = Some q \<Longrightarrow>
   (\<exists>q'. events l' = Some q' \<and>
         held l' @ q' = drop (writes as) (held l @ q @ submitted as)) \<and>
   writes as \<le> length (held l @ q @ submitted as) \<and>
   logfile l' =
     logfile l @ log_lines (lastSequence l) (take (writes as) (held l @ q @ submitted as)) \<and>
   lastSequence l' = lastSequence l + of_nat (writes as)"
proof (induction as arbitrary: l q)
  case Nil
  then show ?case by (simp add: log_lines_Nil)
next
  case (Cons a as)
  have sub: "send_event e l = Some l1 \<Longrightarrow> exec as l1 = Some l' \<Longrightarrow> all_writes_ok as \<Longrightarrow>
    (\<exists>q'. events l' = Some q' \<and>
          held l' @ q' = drop (writes as) (held l @ q @ e # submitted as)) \<and>
    writes as \<le> length (held l @ q @ e # submitted as) \<and>
    logfile l' =
      logfile l @ log_lines (lastSequence l) (take (writes as) (held l @ q @ e # submitted as)) \<and>
    lastSequence l' = lastSequence l + of_nat (writes as)" for e l1
  proof -
    assume s: "send_event e l = Some l1" and r: "exec as l1 = Some l'" and ok: "all_writes_ok as"
    from send_event_queue [OF s Cons.prems(3)] have q1: "events l1 = Some (q @ [e])" by simp
    from send_event_fields [OF s] have "held l1 = held l" by (simp add: held_def)
    with Cons.IH [OF r ok q1] send_event_fields [OF s] show ?thesis by simp
  qed
  show ?case
  proof (cases a)
    case (CallWritePut k v)
    with Cons.prems obtain l1 where
      "send_event \<lparr>Sequence = 0, EventType = EventPut, Key = k, Value = v\<rparr> l = Some l1"
      "exec as l1 = Some l'" "all_writes_ok as"
      by (auto simp: WritePut_def split: option.splits)
    from sub [OF this] CallWritePut show ?thesis by simp
  next
    case (CallWriteDelete k)
    with Cons.prems obtain l1 where
      "send_event \<lparr>Sequence = 0, EventType = EventDelete, Key = k, Value = []\<rparr> l = Some l1"
      "exec as l1 = Some l'" "all_writes_ok as"
      by (auto simp: WriteDelete_def split: option.splits)
    from sub [OF this] CallWriteDelete show ?thesis by simp
  next
    case Receive
    with Cons.prems obtain l1 where
      rc: "receive_event l = Some l1" and r: "exec as l1 = Some l'" and ok: "all_writes_ok as"
      by (auto split: option.splits)
    from rc Cons.prems(3) obtain e q' where q: "q = e # q'" and t: "taken l = None"
      and l1: "l1 = l\<lparr>events := Some q', taken := Some e\<rparr>"
      by (cases q) (auto simp: receive_event_def split: if_splits option.splits)
    from l1 have q1: "events l1 = Some q'" by simp
    from l1 t q have "held l1 @ q' = held l @ q" by (simp add: held_def)
    then have eq: "held l1 @ q' @ submitted as = held l @ q @ submitted as"
      by (metis append_assoc)
    from l1 have fs: "logfile l1 = logfile l" "lastSequence l1 = lastSequence l"
      by simp_all
    from Cons.IH [OF r ok q1, unfolded eq fs] Receive show ?thesis
      by simp
  next
    case (Write w)
    with Cons.prems(2) have w: "w = WriteOk" and ok: "all_writes_ok as" by simp_all
    from Cons.prems(1) Write w obtain l1 where
      d: "write_event WriteOk l = Some l1" and r: "exec as l1 = Some l'"
      by (auto split: option.splits)
    from d obtain e where t: "taken l = Some e"
      and l1: "l1 = l\<lparr>lastSequence := lastSequence l + 1,
                       logfile := logfile l @ format_event (lastSequence l + 1) e,
                       taken := None\<rparr>"
      by (auto simp: write_event_def split: if_splits option.splits)
    from l1 Cons.prems(3) have q1: "events l1 = Some q" by simp
    from l1 have h1: "held l1 = []" by (simp add: held_def)
    from t have h: "held l = [e]" by (simp add: held_def)
    from Cons.IH [OF r ok q1] h h1 l1 Write show ?thesis
      by (simp add: log_lines_Cons add.assoc add.commute)
  qed
qed

lemma exec_bound:
  "exec as l = Some l' \<Longrightarrow> events l = Some q \<Longrightarrow> length q \<le> 16 \<Longrightarrow>
   \<exists>q'. events l' = Some q' \<and> length q' \<le> 16"
proof (induction as arbitrary: l q)
  case Nil
  then show ?case by simp
next
  case (Cons a as)
  from Cons.prems(1) obtain l1 where s: "step a l = Some l1" and r: "exec as l1 = Some l'"
    by (auto split: option.splits)
  have "\<exists>q1. events l1 = Some q1 \<and> length q1 \<le> 16"
  proof (cases a)
    case (CallWritePut k v)
    with s Cons.prems(2,3) show ?thesis
      by (auto simp: WritePut_def send_event_def split: if_splits)
  next
    case (CallWriteDelete k)
    with s Cons.prems(2,3) show ?thesis
      by (auto simp: WriteDelete_def send_event_def split: if_splits)
  next
    case Receive
    with s Cons.prems(2,3) show ?thesis
      by (cases q) (auto simp: receive_event_def split: if_splits option.splits)
  next
    case (Write w)
    with s Cons.prems(2,3) show ?thesis
      by (cases w) (auto simp: write_event_def split: if_splits option.splits)
  qed
  then obtain q1 where "events l1 = Some q1" "length q1 \<le> 16" by blast
  from Cons.IH [OF r this] show ?case .
qed

lemma increasing_Cons:
  fixes x :: "'a::linorder"
  shows "x < y \<Longrightarrow> sorted_wrt (<) (y # ys) \<Longrightarrow> sorted_wrt (<) (x # y # ys)"
  by (auto intro: less_trans)

lemma word64_succ:
  fixes s :: "64 word"
  assumes "unat s + 1 < 2 ^ 64"
  shows "s < s + 1" and "unat (s + 1) = unat s + 1"
proof -
  from assms have "unat s + unat (1 :: 64 word) < 2 ^ LENGTH(64)" by simp
  then have u: "unat (s + 1) = unat s + unat (1 :: 64 word)"
    by (simp only: unat_add_lem)
  then show "unat (s + 1) = unat s + 1" by simp
  then show "s < s + 1" by (simp add: word_less_nat_alt)
qed

lemma numbered_increasing:
  "unat lastSeq + length es < 2 ^ 64 \<Longrightarrow>
   sorted_wrt (<) (lastSeq # map fst (numbered lastSeq es))"
proof (induction es arbitrary: lastSeq)
  case Nil
  show ?case by simp
next
  case (Cons e es)
  from Cons.prems have b: "unat lastSeq + 1 < 2 ^ 64" by simp
  from word64_succ [OF b] Cons.prems have "unat (lastSeq + 1) + length es < 2 ^ 64" by simp
  from Cons.IH [OF this] have "sorted_wrt (<) ((lastSeq + 1) # map fst (numbered (lastSeq + 1) es))" .
  from increasing_Cons [OF word64_succ(1) [OF b] this] show ?case by simp
qed

lemma ReadEvents_clean:
  assumes "ReadEvents l = (evs, [], l')"
  shows "logfile l' = logfile l"
    and "lastSequence l' = Max (set (lastSequence l # map Sequence evs))"
    and "sorted_wrt (<) (lastSequence l # map Sequence evs)"
proof -
  obtain lines se where sl: "ScanLines [] (logfile l) = (lines, se)"
    by (cases "ScanLines [] (logfile l)") auto
  obtain es errs m where rl: "read_loop lines se (lastSequence l) = (es, errs, m)"
    by (cases "read_loop lines se (lastSequence l)") auto
  from assms sl rl have eq: "es = evs" "errs = []" "l' = l\<lparr>lastSequence := m\<rparr>"
    by (simp_all add: ReadEvents_def)
  from eq show "logfile l' = logfile l" by simp
  from read_loop_increasing [OF rl] eq
  show srt: "sorted_wrt (<) (lastSequence l # map Sequence evs)" by simp
  from read_loop_last [OF rl] increasing_last_is_Max [OF srt] eq
  show "lastSequence l' = Max (set (lastSequence l # map Sequence evs))" by simp
qed

text \<open>
  C4, as the code has it. \<open>lastSequence\<close> is a \<open>uint64\<close> and \<open>l.lastSequence++\<close> wraps. After
  a replay without error the logger's \<open>lastSequence\<close> is the highest sequence observed
  (the maximum of its starting value and the replayed sequences), and \<open>Run\<close> keeps it.
  When the writes succeed and the counter does not pass \<open>2^64 - 1\<close>, the events written
  are the first of the events submitted, in submission order, with the sequence numbers
  \<open>lastSequence + 1\<close>, \<open>lastSequence + 2\<close>, ..., each greater than every replayed sequence, and
  the sequences of the whole log, replayed and new, are strictly increasing.
\<close>

theorem C4_writer_continues_numbering:
  assumes "ReadEvents l = (evs, [], l')"
    and "exec as (Run l') = Some l''"
    and "all_writes_ok as"
    and "unat (lastSequence l') + writes as < 2 ^ 64"
  shows "lastSequence (Run l') = Max (set (lastSequence l # map Sequence evs)) \<and>
         logfile l'' =
           logfile l @ log_lines (lastSequence l') (take (writes as) (submitted as)) \<and>
         sorted_wrt (<)
           (map Sequence evs @
            map fst (numbered (lastSequence l') (take (writes as) (submitted as))))"
proof -
  let ?new = "take (writes as) (submitted as)"
  let ?S = "lastSequence l'"
  have ev: "events (Run l') = Some []" by (simp add: Run_def)
  have hd: "held (Run l') = []" by (simp add: Run_def held_def)
  from exec_fifo [OF assms(2,3) ev] hd
  have fl: "logfile l'' = logfile (Run l') @ log_lines (lastSequence (Run l')) ?new"
    by simp
  have len: "length ?new \<le> writes as" by simp
  with assms(4) have "unat ?S + length ?new < 2 ^ 64" by simp
  from numbered_increasing [OF this]
  have new: "sorted_wrt (<) (?S # map fst (numbered ?S ?new))" .
  note clean = ReadEvents_clean [OF assms(1)]
  have below: "\<forall>x \<in> set (map Sequence evs). x \<le> ?S"
    unfolding clean(2) by (auto intro: Max_ge)
  from new have above: "\<forall>y \<in> set (map fst (numbered ?S ?new)). ?S < y" by simp
  from below above
  have cross: "\<forall>x \<in> set (map Sequence evs). \<forall>y \<in> set (map fst (numbered ?S ?new)). x < y"
    by (meson le_less_trans)
  from clean(3) new cross
  have "sorted_wrt (<) (map Sequence evs @ map fst (numbered ?S ?new))"
    by (simp add: sorted_wrt_append)
  with fl clean(1,2) show ?thesis by (simp add: Run_def)
qed

theorem C4_writer_continues_numbering_witness:
  "ReadEvents
     \<lparr>events = None, errors = [], lastSequence = 0,
        logfile = [CHR ''7'', TAB, CHR ''2'', TAB, CHR ''k'', TAB, CHR ''v'', NL],
        draining = False, taken = None\<rparr> =
     ([\<lparr>Sequence = 7, EventType = 2, Key = ''k'', Value = ''v''\<rparr>], [],
      \<lparr>events = None, errors = [], lastSequence = 7,
        logfile = [CHR ''7'', TAB, CHR ''2'', TAB, CHR ''k'', TAB, CHR ''v'', NL],
        draining = False, taken = None\<rparr>) \<and>
   exec [CallWritePut ''a'' ''1'', Receive, Write WriteOk]
     (Run \<lparr>events = None, errors = [], lastSequence = 7,
        logfile = [CHR ''7'', TAB, CHR ''2'', TAB, CHR ''k'', TAB, CHR ''v'', NL],
        draining = False, taken = None\<rparr>) =
     Some \<lparr>events = Some [], errors = [], lastSequence = 8,
        logfile = [CHR ''7'', TAB, CHR ''2'', TAB, CHR ''k'', TAB, CHR ''v'', NL,
                   CHR ''8'', TAB, CHR ''2'', TAB, CHR ''a'', TAB, CHR ''1'', NL],
        draining = True, taken = None\<rparr> \<and>
   all_writes_ok [CallWritePut ''a'' ''1'', Receive, Write WriteOk] \<and>
   unat (7 :: 64 word) + writes [CallWritePut ''a'' ''1'', Receive, Write WriteOk] < 2 ^ 64 \<and>
   sorted_wrt (<)
     (map Sequence [\<lparr>Sequence = 7, EventType = 2, Key = ''k'', Value = ''v''\<rparr>] @
      map fst (numbered 7
        (take (writes [CallWritePut ''a'' ''1'', Receive, Write WriteOk])
           (submitted [CallWritePut ''a'' ''1'', Receive, Write WriteOk]))))"
proof -
  let ?line = "[CHR ''7'', TAB, CHR ''2'', TAB, CHR ''k'', TAB, CHR ''v'']"
  let ?ev = "\<lparr>Sequence = 7, EventType = 2, Key = ''k'', Value = ''v''\<rparr>"
  let ?l = "\<lparr>events = None, errors = [], lastSequence = 0, logfile = ?line @ [NL],
             draining = False, taken = None\<rparr>"
  let ?l' = "\<lparr>events = None, errors = [], lastSequence = 7, logfile = ?line @ [NL],
             draining = False, taken = None\<rparr>"
  let ?as = "[CallWritePut ''a'' ''1'', Receive, Write WriteOk]"
  let ?l'' = "\<lparr>events = Some [], errors = [], lastSequence = 8,
        logfile = ?line @ [NL] @ [CHR ''8'', TAB, CHR ''2'', TAB, CHR ''a'', TAB, CHR ''1'', NL],
        draining = True, taken = None\<rparr>"
  have sl: "ScanLines [] (?line @ [NL]) = ([?line], False)" by (simp add: dropCR_def)
  have ps: "Sscanf ?line = Some ?ev" by (simp add: scan_eval)
  have re: "ReadEvents ?l = ([?ev], [], ?l')"
    using sl ps by (simp add: ReadEvents_def)
  have ex: "exec ?as (Run ?l') = Some ?l''"
    by (simp add: run_eval)
  have ok: "all_writes_ok ?as" by simp
  have bd: "unat (lastSequence ?l') + writes ?as < 2 ^ 64" by simp
  from C4_writer_continues_numbering [OF re ex ok bd] re ex ok bd
  show ?thesis by simp
qed

text \<open>
  C4 as the specification states it fails where the counter wraps: a log whose only line
  has the sequence number \<open>2^64 - 1\<close> replays without error, and the first event written
  after it gets the sequence number 0, which is not greater than the replayed one.
\<close>

theorem C4_counterexample:
  "ReadEvents
     \<lparr>events = None, errors = [], lastSequence = 0,
        logfile = ''18446744073709551615'' @ [TAB, CHR ''2'', TAB, CHR ''k'', TAB, CHR ''v'', NL],
        draining = False, taken = None\<rparr> =
     ([\<lparr>Sequence = 18446744073709551615, EventType = 2, Key = ''k'', Value = ''v''\<rparr>], [],
      \<lparr>events = None, errors = [], lastSequence = 18446744073709551615,
        logfile = ''18446744073709551615'' @ [TAB, CHR ''2'', TAB, CHR ''k'', TAB, CHR ''v'', NL],
        draining = False, taken = None\<rparr>) \<and>
   exec [CallWritePut ''a'' ''1'', Receive, Write WriteOk]
     (Run \<lparr>events = None, errors = [], lastSequence = 18446744073709551615,
        logfile = ''18446744073709551615'' @ [TAB, CHR ''2'', TAB, CHR ''k'', TAB, CHR ''v'', NL],
        draining = False, taken = None\<rparr>) =
     Some \<lparr>events = Some [], errors = [], lastSequence = 0,
        logfile = ''18446744073709551615'' @ [TAB, CHR ''2'', TAB, CHR ''k'', TAB, CHR ''v'', NL] @
                  [CHR ''0'', TAB, CHR ''2'', TAB, CHR ''a'', TAB, CHR ''1'', NL],
        draining = True, taken = None\<rparr> \<and>
   \<not> ((18446744073709551615 :: 64 word) < 0)"
proof -
  let ?line = "''18446744073709551615'' @ [TAB, CHR ''2'', TAB, CHR ''k'', TAB, CHR ''v'']"
  have sl: "ScanLines [] (?line @ [NL]) = ([?line], False)" by (simp add: dropCR_def)
  have ps: "Sscanf ?line =
      Some \<lparr>Sequence = 18446744073709551615, EventType = 2, Key = ''k'', Value = ''v''\<rparr>"
    by (simp add: scan_eval)
  show ?thesis
    using sl ps by (simp add: ReadEvents_def run_eval)
qed

text \<open>
  C9. The event channel made by \<open>Run\<close> holds at most 16 events. In every state that an
  interleaving of calls of \<open>WritePut\<close> and \<open>WriteDelete\<close> with the steps of the goroutine
  reaches after \<open>Run\<close>, the channel holds at most 16 events; a call of \<open>WritePut\<close> or
  \<open>WriteDelete\<close> blocks when it holds 16 and otherwise appends its event at the end; and,
  the writes succeeding, the file has grown by the lines of the first events submitted, in
  submission order, while the events submitted after them are, in submission order, the
  one that the goroutine has taken and not yet written, if any, and then those in the
  channel: nothing is dropped and nothing overtakes. (So up to 17 submitted events can wait
  to be written: 16 in the channel and one in the goroutine's hand.)
\<close>

theorem C9_bounded_queue_keeps_order:
  assumes "exec as (Run l) = Some l'"
  shows "(case events l' of
            None \<Rightarrow> False
          | Some q \<Rightarrow>
              length q \<le> 16 \<and>
              (length q = 16 \<longrightarrow> WritePut k v l' = None \<and> WriteDelete k l' = None) \<and>
              (length q < 16 \<longrightarrow>
                 WritePut k v l' =
                   Some (l'\<lparr>events :=
                     Some (q @ [\<lparr>Sequence = 0, EventType = EventPut, Key = k, Value = v\<rparr>])\<rparr>) \<and>
                 WriteDelete k l' =
                   Some (l'\<lparr>events :=
                     Some (q @ [\<lparr>Sequence = 0, EventType = EventDelete, Key = k, Value = []\<rparr>])\<rparr>)) \<and>
              (all_writes_ok as \<longrightarrow>
                 held l' @ q = drop (writes as) (submitted as) \<and>
                 writes as \<le> length (submitted as) \<and>
                 logfile l' =
                   logfile l @ log_lines (lastSequence l) (take (writes as) (submitted as))))"
proof -
  have ev: "events (Run l) = Some []" by (simp add: Run_def)
  have hd: "held (Run l) = []" by (simp add: Run_def held_def)
  from exec_bound [OF assms ev] obtain q where q: "events l' = Some q" "length q \<le> 16"
    by auto
  have blocked: "length q = 16 \<longrightarrow> WritePut k v l' = None \<and> WriteDelete k l' = None"
    using q by (simp add: WritePut_def WriteDelete_def send_event_def)
  have free: "length q < 16 \<longrightarrow>
                 WritePut k v l' =
                   Some (l'\<lparr>events :=
                     Some (q @ [\<lparr>Sequence = 0, EventType = EventPut, Key = k, Value = v\<rparr>])\<rparr>) \<and>
                 WriteDelete k l' =
                   Some (l'\<lparr>events :=
                     Some (q @ [\<lparr>Sequence = 0, EventType = EventDelete, Key = k, Value = []\<rparr>])\<rparr>)"
    using q by (simp add: WritePut_def WriteDelete_def send_event_def)
  have order: "all_writes_ok as \<longrightarrow>
                 held l' @ q = drop (writes as) (submitted as) \<and>
                 writes as \<le> length (submitted as) \<and>
                 logfile l' =
                   logfile l @ log_lines (lastSequence l) (take (writes as) (submitted as))"
  proof
    assume ok: "all_writes_ok as"
    from exec_fifo [OF assms ok ev] q hd
    show "held l' @ q = drop (writes as) (submitted as) \<and>
          writes as \<le> length (submitted as) \<and>
          logfile l' = logfile l @ log_lines (lastSequence l) (take (writes as) (submitted as))"
      by (simp add: Run_def)
  qed
  from q blocked free order show ?thesis by simp
qed

theorem C9_bounded_queue_keeps_order_witness:
  "exec (CallWritePut ''a'' ''1'' # Receive # replicate 16 (CallWriteDelete ''a''))
     (Run \<lparr>events = None, errors = [], lastSequence = 0, logfile = [], draining = False,
            taken = None\<rparr>) =
     Some \<lparr>events =
             Some (replicate 16 \<lparr>Sequence = 0, EventType = EventDelete, Key = ''a'', Value = []\<rparr>),
           errors = [], lastSequence = 0, logfile = [], draining = True,
           taken = Some \<lparr>Sequence = 0, EventType = EventPut, Key = ''a'', Value = ''1''\<rparr>\<rparr> \<and>
   length (replicate 16 \<lparr>Sequence = 0, EventType = EventDelete, Key = ''a'', Value = []\<rparr>) = 16 \<and>
   all_writes_ok (CallWritePut ''a'' ''1'' # Receive # replicate 16 (CallWriteDelete ''a'')) \<and>
   WritePut ''b'' ''2''
     \<lparr>events =
        Some (replicate 16 \<lparr>Sequence = 0, EventType = EventDelete, Key = ''a'', Value = []\<rparr>),
      errors = [], lastSequence = 0, logfile = [], draining = True,
      taken = Some \<lparr>Sequence = 0, EventType = EventPut, Key = ''a'', Value = ''1''\<rparr>\<rparr> = None \<and>
   WriteDelete ''b''
     \<lparr>events =
        Some (replicate 16 \<lparr>Sequence = 0, EventType = EventDelete, Key = ''a'', Value = []\<rparr>),
      errors = [], lastSequence = 0, logfile = [], draining = True,
      taken = Some \<lparr>Sequence = 0, EventType = EventPut, Key = ''a'', Value = ''1''\<rparr>\<rparr> = None \<and>
   exec [CallWritePut ''a'' ''1'', CallWritePut ''b'' ''2'', Receive, Write WriteOk]
     (Run \<lparr>events = None, errors = [], lastSequence = 0, logfile = [], draining = False,
            taken = None\<rparr>) =
     Some \<lparr>events = Some [\<lparr>Sequence = 0, EventType = EventPut, Key = ''b'', Value = ''2''\<rparr>],
           errors = [], lastSequence = 1,
           logfile = [CHR ''1'', TAB, CHR ''2'', TAB, CHR ''a'', TAB, CHR ''1'', NL],
           draining = True, taken = None\<rparr> \<and>
   length [\<lparr>Sequence = 0, EventType = EventPut, Key = ''b'', Value = ''2''\<rparr>] < 16 \<and>
   all_writes_ok [CallWritePut ''a'' ''1'', CallWritePut ''b'' ''2'', Receive, Write WriteOk] \<and>
   WriteDelete ''a''
     \<lparr>events = Some [\<lparr>Sequence = 0, EventType = EventPut, Key = ''b'', Value = ''2''\<rparr>],
        errors = [], lastSequence = 1,
        logfile = [CHR ''1'', TAB, CHR ''2'', TAB, CHR ''a'', TAB, CHR ''1'', NL],
        draining = True, taken = None\<rparr> =
     Some \<lparr>events = Some [\<lparr>Sequence = 0, EventType = EventPut, Key = ''b'', Value = ''2''\<rparr>,
                          \<lparr>Sequence = 0, EventType = EventDelete, Key = ''a'', Value = []\<rparr>],
           errors = [], lastSequence = 1,
           logfile = [CHR ''1'', TAB, CHR ''2'', TAB, CHR ''a'', TAB, CHR ''1'', NL],
           draining = True, taken = None\<rparr> \<and>
   log_lines 0 [\<lparr>Sequence = 0, EventType = EventPut, Key = ''a'', Value = ''1''\<rparr>] =
     [CHR ''1'', TAB, CHR ''2'', TAB, CHR ''a'', TAB, CHR ''1'', NL]"
proof -
  let ?a = "\<lparr>Sequence = 0, EventType = EventPut, Key = ''a'', Value = ''1''\<rparr>"
  let ?b = "\<lparr>Sequence = 0, EventType = EventPut, Key = ''b'', Value = ''2''\<rparr>"
  let ?d = "\<lparr>Sequence = 0, EventType = EventDelete, Key = ''a'', Value = []\<rparr>"
  let ?l = "\<lparr>events = None, errors = [], lastSequence = 0, logfile = [], draining = False,
             taken = None\<rparr>"
  let ?as17 = "CallWritePut ''a'' ''1'' # Receive # replicate 16 (CallWriteDelete ''a'')"
  let ?full = "\<lparr>events = Some (replicate 16 ?d), errors = [], lastSequence = 0, logfile = [],
                draining = True, taken = Some ?a\<rparr>"
  let ?as = "[CallWritePut ''a'' ''1'', CallWritePut ''b'' ''2'', Receive, Write WriteOk]"
  let ?l' = "\<lparr>events = Some [?b], errors = [], lastSequence = 1,
           logfile = [CHR ''1'', TAB, CHR ''2'', TAB, CHR ''a'', TAB, CHR ''1'', NL],
           draining = True, taken = None\<rparr>"
  have x17: "exec ?as17 (Run ?l) = Some ?full"
    by (simp add: numeral_eq_Suc Run_def WritePut_def WriteDelete_def send_event_def
        receive_event_def)
  have ok17: "all_writes_ok ?as17"
    by (simp add: numeral_eq_Suc)
  have x3: "exec ?as (Run ?l) = Some ?l'"
    by (simp add: run_eval)
  have ok: "all_writes_ok ?as" by simp
  from C9_bounded_queue_keeps_order [OF x17, of "''b''" "''2''"]
  have blocked: "WritePut ''b'' ''2'' ?full = None \<and> WriteDelete ''b'' ?full = None"
    by simp
  note at3 = C9_bounded_queue_keeps_order [OF x3, of "''a''" "''1''"]
  from at3 have written:
    "log_lines 0 [?a] = [CHR ''1'', TAB, CHR ''2'', TAB, CHR ''a'', TAB, CHR ''1'', NL]"
    by simp
  from at3 have free: "WriteDelete ''a'' ?l' = Some (?l'\<lparr>events := Some ([?b] @ [?d])\<rparr>)"
    by (simp add: written)
  from x17 ok17 x3 ok blocked free written show ?thesis by simp
qed

section \<open>What a line that parses looks like\<close>

text \<open>
  The reader separates fields at any run of spaces: a line that \<open>Sscanf\<close> accepts has
  at least four tokens, the first two are decimal numerals, and the key and the value it
  delivers are the third and the fourth token, whatever the tabs of the line are.
\<close>

lemma isSpace_CR: "isSpace CR"
  by (simp add: isSpace_def)

lemma SkipSpace_Some:
  "SkipSpace s = Some r \<Longrightarrow> r = dropWhile isSpace s"
proof (induction s rule: SkipSpace.induct)
  case 1
  then show ?case by simp
next
  case (2 c cs)
  show ?case
  proof (cases "c = CR \<and> (case cs of [] \<Rightarrow> False | d # _ \<Rightarrow> d = NL)")
    case True
    with "2.prems" have "SkipSpace cs = Some r" by simp
    with "2.IH"(1) True have "r = dropWhile isSpace cs" by simp
    with True show ?thesis by (simp add: isSpace_CR)
  next
    case False
    then have step: "SkipSpace (c # cs) =
        (if c = NL then None else if \<not> isSpace c then Some (c # cs) else SkipSpace cs)"
      by (simp only: SkipSpace.simps if_False)
    show ?thesis
    proof (cases "isSpace c")
      case True
      with step "2.prems" have nonl: "c \<noteq> NL" and sk: "SkipSpace cs = Some r"
        by (auto split: if_splits)
      from nonl True have "\<not> \<not> isSpace c" by simp
      from "2.IH"(2) [OF False nonl this sk] True show ?thesis by simp
    next
      case False
      with step "2.prems" show ?thesis by (auto split: if_splits)
    qed
  qed
qed

lemma digit_not_space: "isDigit c \<Longrightarrow> \<not> isSpace c"
  by (auto simp: isDigit_def isSpace_def)

lemma tokens_spaces_prefix:
  "\<forall>c \<in> set pre. isSpace c \<Longrightarrow> tokens (pre @ s) = tokens s"
proof -
  assume "\<forall>c \<in> set pre. isSpace c"
  then have "dropWhile isSpace (pre @ s) = dropWhile isSpace s"
    by (induction pre) simp_all
  then show ?thesis
    by (subst tokens.simps, subst (2) tokens.simps) simp
qed

lemma tokens_dropWhile: "tokens (dropWhile isSpace s) = tokens s"
proof -
  have "tokens (takeWhile isSpace s @ dropWhile isSpace s) = tokens (dropWhile isSpace s)"
    by (rule tokens_spaces_prefix) (auto dest: set_takeWhileD)
  then show ?thesis by simp
qed

lemma tokens_first:
  assumes "t \<noteq> []" and "\<forall>c \<in> set t. \<not> isSpace c"
    and "rest = [] \<or> isSpace (hd rest)"
  shows "tokens (t @ rest) = t # tokens rest"
proof -
  from assms(1,2) have d: "dropWhile isSpace (t @ rest) = t @ rest"
    by (cases t) auto
  from assms(3) have tw: "takeWhile (\<lambda>r. \<not> isSpace r) (t @ rest) = t"
    using assms(2) by (cases rest) (auto simp: takeWhile_append2 takeWhile_tail)
  from assms(3) have dw: "dropWhile (\<lambda>r. \<not> isSpace r) (t @ rest) = rest"
    using assms(2) by (cases rest) (auto simp: dropWhile_append2)
  from assms(1) d tw dw show ?thesis
    by (subst tokens.simps) simp
qed

lemma advance_Some:
  "advance s = Some r \<Longrightarrow>
   (s = [] \<or> isSpace (hd s)) \<and> tokens r = tokens s"
proof (cases s)
  case Nil
  assume "advance s = Some r"
  with Nil show ?thesis by (simp add: advance_def)
next
  case (Cons c cs)
  assume a: "advance s = Some r"
  with Cons have sp: "isSpace c" and r: "r = dropWhile (\<lambda>r. isSpace r \<and> r \<noteq> NL) cs"
    by (auto simp: advance_def split: if_splits)
  let ?pre = "c # takeWhile (\<lambda>r. isSpace r \<and> r \<noteq> NL) cs"
  have "s = ?pre @ r" using Cons r by simp
  moreover have "\<forall>x \<in> set ?pre. isSpace x"
    using sp by (auto dest: set_takeWhileD)
  ultimately have "tokens s = tokens r"
    using tokens_spaces_prefix [of ?pre r] by simp
  with Cons sp show ?thesis by simp
qed

lemma scanUint_Some:
  assumes "scanUint bitSize s = Some (v, rest)"
  shows "\<exists>tok. tok \<noteq> [] \<and> list_all isDigit tok \<and> dropWhile isSpace s = tok @ rest \<and>
               v = parse_decimal tok \<and> v < 2 ^ 64 \<and> v < 2 ^ bitSize"
proof -
  from assms obtain s1 where sk: "SkipSpace s = Some s1"
    by (auto simp: scanUint_def split: option.splits)
  from SkipSpace_Some [OF sk] have s1: "s1 = dropWhile isSpace s" .
  let ?tok = "takeWhile isDigit s1"
  from assms sk have "?tok \<noteq> []" and "rest = dropWhile isDigit s1"
    and "v = parse_decimal ?tok" and "v < 2 ^ 64" and "v < 2 ^ bitSize"
    by (auto simp: scanUint_def Let_def split: list.splits if_splits)
  moreover have "list_all isDigit ?tok"
    by (auto simp: list_all_iff dest: set_takeWhileD)
  moreover have "s1 = ?tok @ dropWhile isDigit s1" by simp
  ultimately show ?thesis using s1 by metis
qed

lemma convertString_Some:
  assumes "convertString s = Some (k, rest)"
  shows "k \<noteq> [] \<and> (\<forall>c \<in> set k. \<not> isSpace c) \<and> dropWhile isSpace s = k @ rest \<and>
         (rest = [] \<or> isSpace (hd rest))"
proof -
  from assms obtain s1 where sk: "SkipSpace s = Some s1"
    by (auto simp: convertString_def split: option.splits)
  from SkipSpace_Some [OF sk] have s1: "s1 = dropWhile isSpace s" .
  from assms sk have ne: "s1 \<noteq> []"
    and k: "k = takeWhile (\<lambda>r. \<not> isSpace r) s1"
    and rest: "rest = dropWhile (\<lambda>r. \<not> isSpace r) s1"
    by (auto simp: convertString_def split: list.splits)
  from ne s1 have "\<not> isSpace (hd s1)"
    using hd_dropWhile [of isSpace s] by simp
  with ne k have "k \<noteq> []" by (cases s1) auto
  moreover from k have "\<forall>c \<in> set k. \<not> isSpace c" by (auto dest: set_takeWhileD)
  moreover from k rest s1 have "dropWhile isSpace s = k @ rest" by simp
  moreover from rest have "rest = [] \<or> isSpace (hd rest)"
    using hd_dropWhile [of "\<lambda>r. \<not> isSpace r" s1] by auto
  ultimately show ?thesis by simp
qed

lemma tokens_after_uint:
  assumes "scanUint bitSize s = Some (v, rest)" and "advance rest = Some s'"
  shows "\<exists>t. list_all isDigit t \<and> tokens s = t # tokens s'"
proof -
  from scanUint_Some [OF assms(1)] obtain t where
    t: "t \<noteq> []" "list_all isDigit t" "dropWhile isSpace s = t @ rest"
    by blast
  from advance_Some [OF assms(2)] have
    b: "rest = [] \<or> isSpace (hd rest)" and tk: "tokens s' = tokens rest"
    by simp_all
  from t(2) have ns: "\<forall>c \<in> set t. \<not> isSpace c"
    by (auto simp: list_all_iff dest: digit_not_space)
  have "tokens s = tokens (dropWhile isSpace s)" by (simp add: tokens_dropWhile)
  also have "\<dots> = t # tokens rest" unfolding t(3) by (rule tokens_first [OF t(1) ns b])
  finally show ?thesis using t(2) tk by auto
qed

lemma tokens_after_string:
  assumes "convertString s = Some (k, rest)"
  shows "tokens s = k # tokens rest"
proof -
  from convertString_Some [OF assms] have
    k: "k \<noteq> []" "\<forall>c \<in> set k. \<not> isSpace c" "dropWhile isSpace s = k @ rest"
       "rest = [] \<or> isSpace (hd rest)"
    by simp_all
  have "tokens s = tokens (dropWhile isSpace s)" by (simp add: tokens_dropWhile)
  also have "\<dots> = k # tokens rest" unfolding k(3) by (rule tokens_first [OF k(1,2,4)])
  finally show ?thesis .
qed

lemma Sscanf_Some_tokens:
  assumes "Sscanf line = Some e"
  shows "\<exists>t1 t2 r. tokens line = t1 # t2 # Key e # Value e # r \<and>
                   list_all isDigit t1 \<and> list_all isDigit t2"
proof -
  from assms obtain sq s1 s2 ty s3 s4 k s5 s6 v s7 where
    a1: "scanUint 64 line = Some (sq, s1)" and a2: "advance s1 = Some s2" and
    a3: "scanUint 8 s2 = Some (ty, s3)" and a4: "advance s3 = Some s4" and
    a5: "convertString s4 = Some (k, s5)" and a6: "advance s5 = Some s6" and
    a7: "convertString s6 = Some (v, s7)" and
    e: "e = \<lparr>Sequence = of_nat sq, EventType = of_nat ty, Key = k, Value = v\<rparr>"
    by (auto simp: Sscanf_def split: option.splits prod.splits)
  from tokens_after_uint [OF a1 a2] obtain t1 where
    t1: "list_all isDigit t1" "tokens line = t1 # tokens s2" by blast
  from tokens_after_uint [OF a3 a4] obtain t2 where
    t2: "list_all isDigit t2" "tokens s2 = t2 # tokens s4" by blast
  from tokens_after_string [OF a5] advance_Some [OF a6]
  have t3: "tokens s4 = k # tokens s6" by simp
  from tokens_after_string [OF a7] have t4: "tokens s6 = v # tokens s7" .
  from t1 t2 t3 t4 e show ?thesis by simp
qed

text \<open>
  C5. A log whose only line is \<open>1<TAB>2<TAB>key value\<close>. In the record format, which the
  writer and the reader both spell \<open>%d<TAB>%d<TAB>%s<TAB>%s\<close>, the line has three
  fields: its value field is missing. The reader separates fields at any run of spaces, so
  it takes \<open>key\<close> for the key and \<open>value\<close> for the value: replay delivers the event
  and sends no error.
\<close>

theorem C5_line_without_value_field_replays:
  "tab_fields ([CHR ''1'', TAB, CHR ''2'', TAB] @ ''key value'') = [''1'', ''2'', ''key value''] \<and>
   length (tab_fields ([CHR ''1'', TAB, CHR ''2'', TAB] @ ''key value'')) < 4 \<and>
   Sscanf ([CHR ''1'', TAB, CHR ''2'', TAB] @ ''key value'') =
     Some \<lparr>Sequence = 1, EventType = 2, Key = ''key'', Value = ''value''\<rparr> \<and>
   ReadEvents
     \<lparr>events = None, errors = [], lastSequence = 0,
        logfile = [CHR ''1'', TAB, CHR ''2'', TAB] @ ''key value'' @ [NL],
        draining = False, taken = None\<rparr> =
     ([\<lparr>Sequence = 1, EventType = 2, Key = ''key'', Value = ''value''\<rparr>], [],
      \<lparr>events = None, errors = [], lastSequence = 1,
        logfile = [CHR ''1'', TAB, CHR ''2'', TAB] @ ''key value'' @ [NL],
        draining = False, taken = None\<rparr>)"
proof -
  let ?line = "[CHR ''1'', TAB, CHR ''2'', TAB] @ ''key value''"
  have sl: "ScanLines [] (?line @ [NL]) = ([?line], False)" by (simp add: dropCR_def)
  have ps: "Sscanf ?line = Some \<lparr>Sequence = 1, EventType = 2, Key = ''key'', Value = ''value''\<rparr>"
    by (simp add: scan_eval)
  have tf: "tab_fields ?line = [''1'', ''2'', ''key value'']"
    by (simp add: tab_fields_def)
  show ?thesis
    using sl ps tf by (simp add: ReadEvents_def)
qed

end
